theory Spec2Isabelle
  imports Main
begin

section \<open>Search-query filter detection\<close>

text \<open>
  The two scanners \<open>hasFilter\<close> and \<open>hasSpecificFilter\<close> of the package \<open>github\<close>
  (file \<open>pkg/github/search_utils.go\<close>) decide whether a search query
  already holds a filter \<open>key:\<close> or an exact pair \<open>key:value\<close>. A Go string is a sequence
  of bytes: \<open>len\<close> counts bytes and \<open>query[i]\<close> is one byte. It is modelled as a
  \<open>string\<close>, a list of 8-bit \<open>char\<close>s. Indices are Go \<open>int\<close>s that are never negative
  where they are used (the sentinel \<open>-1\<close> of \<open>strings.Index\<close> is the value \<open>None\<close>) and never
  exceed the length of the query, so they are natural numbers here.
\<close>

subsection \<open>Run-time panics\<close>

text \<open>
  An index expression \<open>s[i]\<close> panics when \<open>i\<close> is not below \<open>len(s)\<close>, a slice expression
  \<open>s[k:]\<close> when \<open>k\<close> exceeds \<open>len(s)\<close>. Both are values of the model.
\<close>

datatype error = IndexOutOfRange | SliceBoundsOutOfRange

definition byte_at :: "string \<Rightarrow> nat \<Rightarrow> error + char" where
  "byte_at s i = (if i < length s then Inr (s ! i) else Inl IndexOutOfRange)"

definition slice_from :: "string \<Rightarrow> nat \<Rightarrow> error + string" where
  "slice_from s k = (if k \<le> length s then Inr (drop k s) else Inl SliceBoundsOutOfRange)"

subsection \<open>The library functions the scanners call\<close>

text \<open>
  The scanners classify \<open>rune(query[i])\<close>, one byte widened to a code point, which is
  at most \<open>0xFF\<close>. On that range Go's \<open>unicode.IsSpace\<close> is true of tab, line feed,
  vertical tab, form feed, carriage return, space, \<open>U+0085\<close> and \<open>U+00A0\<close>;
  \<open>unicode.IsDigit\<close> of \<open>'0'\<close> to \<open>'9'\<close>; and \<open>unicode.IsLetter\<close> of the Latin-1
  letters: \<open>A-Z\<close>, \<open>a-z\<close>, \<open>U+00AA\<close>, \<open>U+00B5\<close>, \<open>U+00BA\<close>, \<open>U+00C0-U+00D6\<close>,
  \<open>U+00D8-U+00F6\<close> and \<open>U+00F8-U+00FF\<close>.
\<close>

definition rune :: "char \<Rightarrow> nat" where
  "rune c = of_char c"

definition IsSpace :: "char \<Rightarrow> bool" where
  "IsSpace c = (rune c \<in> {0x09, 0x0A, 0x0B, 0x0C, 0x0D, 0x20, 0x85, 0xA0})"

definition IsDigit :: "char \<Rightarrow> bool" where
  "IsDigit c = (0x30 \<le> rune c \<and> rune c \<le> 0x39)"

definition IsLetter :: "char \<Rightarrow> bool" where
  "IsLetter c =
     ((0x41 \<le> rune c \<and> rune c \<le> 0x5A) \<or> (0x61 \<le> rune c \<and> rune c \<le> 0x7A) \<or>
      rune c = 0xAA \<or> rune c = 0xB5 \<or> rune c = 0xBA \<or>
      (0xC0 \<le> rune c \<and> rune c \<le> 0xD6) \<or> (0xD8 \<le> rune c \<and> rune c \<le> 0xF6) \<or>
      (0xF8 \<le> rune c \<and> rune c \<le> 0xFF))"

text \<open>
  \<open>strings.Index(s, substr)\<close> is the index of the first instance of \<open>substr\<close> in \<open>s\<close>,
  or \<open>-1\<close> (here \<open>None\<close>) when there is none; the empty \<open>substr\<close> is found at index 0.
\<close>

fun Index :: "string \<Rightarrow> string \<Rightarrow> nat option" where
  "Index [] substr = (if substr = [] then Some 0 else None)"
| "Index (c # s) substr =
     (if take (length substr) (c # s) = substr then Some 0
      else map_option Suc (Index s substr))"

subsection \<open>hasFilter\<close>

text \<open>
  The test both scanners apply to a neighbouring byte \<open>c\<close>:
  \<open>unicode.IsSpace(c) || (!unicode.IsLetter(c) && !unicode.IsDigit(c) && c != '_')\<close>.
\<close>

definition isBoundary :: "char \<Rightarrow> bool" where
  "isBoundary c = (IsSpace c \<or> (\<not> IsLetter c \<and> \<not> IsDigit c \<and> c \<noteq> CHR ''_''))"

text \<open>
  \<open>idx+len(prefix) < len(query) && !unicode.IsSpace(rune(query[idx+len(prefix)]))\<close>,
  with \<open>k = idx+len(prefix)\<close>; the right operand is evaluated only when the left holds.
\<close>

definition hasValueAfter :: "string \<Rightarrow> nat \<Rightarrow> error + bool" where
  "hasValueAfter query k =
     (if k < length query
      then (case byte_at query k of Inl e \<Rightarrow> Inl e | Inr c \<Rightarrow> Inr (\<not> IsSpace c))
      else Inr False)"

text \<open>
  The first half of the loop body: \<open>Inr True\<close> where the body executes \<open>return true\<close>
  for the occurrence at \<open>idx\<close>, \<open>Inr False\<close> where it falls through to the search for the
  next occurrence.
\<close>

definition hasFilter_match :: "string \<Rightarrow> string \<Rightarrow> nat \<Rightarrow> error + bool" where
  "hasFilter_match query pfx idx =
     (if idx = 0 then hasValueAfter query (idx + length pfx)
      else (case byte_at query (idx - 1) of
              Inl e \<Rightarrow> Inl e
            | Inr prevChar \<Rightarrow>
                if isBoundary prevChar then hasValueAfter query (idx + length pfx)
                else Inr False))"

lemma Index_bound: "Index s p = Some n \<Longrightarrow> n + length p \<le> length s"
proof (induction s arbitrary: n)
  case Nil
  then show ?case by (simp split: if_splits)
next
  case (Cons c s)
  show ?case
  proof (cases "take (length p) (c # s) = p")
    case True
    then have "length (take (length p) (c # s)) = length p"
      by simp
    then have "length p \<le> length (c # s)"
      by simp
    with True Cons.prems show ?thesis by simp
  next
    case False
    with Cons.prems obtain m where "Index s p = Some m" "n = Suc m"
      by auto
    with Cons.IH show ?thesis by simp
  qed
qed

text \<open>
  The loop \<open>for idx != -1 { ... }\<close>, entered with an occurrence at \<open>idx\<close>. The prefix
  \<open>filterType + ":"\<close> is never empty, so every round moves \<open>idx\<close> forward.
\<close>

function hasFilter_loop :: "string \<Rightarrow> string \<Rightarrow> nat \<Rightarrow> error + bool" where
  "hasFilter_loop query filterType idx =
     (case hasFilter_match query (filterType @ '':'') idx of
        Inl e \<Rightarrow> Inl e
      | Inr True \<Rightarrow> Inr True
      | Inr False \<Rightarrow>
          (case slice_from query (idx + length (filterType @ '':'')) of
             Inl e \<Rightarrow> Inl e
           | Inr remaining \<Rightarrow>
               (case Index remaining (filterType @ '':'') of
                  None \<Rightarrow> Inr False
                | Some nextIdx \<Rightarrow>
                    hasFilter_loop query filterType
                      (idx + length (filterType @ '':'') + nextIdx))))"
  by pat_completeness auto
termination
proof (relation "measure (\<lambda>(query, filterType, idx). length query - idx)")
  show "wf (measure (\<lambda>(query, filterType, idx). length query - idx))"
    by simp
next
  fix query filterType :: string and idx nextIdx :: nat and b remaining
  assume "slice_from query (idx + length (filterType @ '':'')) = Inr remaining"
    and "Index remaining (filterType @ '':'') = Some nextIdx"
  then have "nextIdx + length (filterType @ '':'')
      \<le> length query - (idx + length (filterType @ '':''))"
    using Index_bound [of remaining "filterType @ '':''" nextIdx]
    by (auto simp: slice_from_def split: if_splits)
  then show "((query, filterType, idx + length (filterType @ '':'') + nextIdx),
       (query, filterType, idx)) \<in> measure (\<lambda>(query, filterType, idx). length query - idx)"
    by simp
qed

declare hasFilter_loop.simps [simp del]

definition hasFilter :: "string \<Rightarrow> string \<Rightarrow> error + bool" where
  "hasFilter query filterType =
     (case Index query (filterType @ '':'') of
        None \<Rightarrow> Inr False
      | Some idx \<Rightarrow> hasFilter_loop query filterType idx)"

subsection \<open>hasSpecificFilter\<close>

text \<open>
  The first half of the loop body of \<open>hasSpecificFilter\<close>: the flag \<open>validStart\<close> is
  computed first; when it is set, the byte at \<open>endIdx = idx + len(target)\<close> is read
  unless \<open>endIdx\<close> is the length of the query.
\<close>

definition hasSpecificFilter_match :: "string \<Rightarrow> string \<Rightarrow> nat \<Rightarrow> error + bool" where
  "hasSpecificFilter_match query target idx =
     (case (if idx = 0 then Inr True
            else (case byte_at query (idx - 1) of
                    Inl e \<Rightarrow> Inl e
                  | Inr prevChar \<Rightarrow> Inr (isBoundary prevChar))) of
        Inl e \<Rightarrow> Inl e
      | Inr validStart \<Rightarrow>
          if validStart then
            (let endIdx = idx + length target in
             if endIdx = length query then Inr True
             else (case byte_at query endIdx of
                     Inl e \<Rightarrow> Inl e
                   | Inr nextChar \<Rightarrow> Inr (isBoundary nextChar)))
          else Inr False)"

text \<open>
  The loop of \<open>hasSpecificFilter\<close>. The target \<open>filterType + ":" + filterValue\<close> holds
  the colon at least, so again every round moves \<open>idx\<close> forward.
\<close>

function hasSpecificFilter_loop :: "string \<Rightarrow> string \<Rightarrow> string \<Rightarrow> nat \<Rightarrow> error + bool" where
  "hasSpecificFilter_loop query filterType filterValue idx =
     (case hasSpecificFilter_match query (filterType @ '':'' @ filterValue) idx of
        Inl e \<Rightarrow> Inl e
      | Inr True \<Rightarrow> Inr True
      | Inr False \<Rightarrow>
          (case slice_from query (idx + length (filterType @ '':'' @ filterValue)) of
             Inl e \<Rightarrow> Inl e
           | Inr remaining \<Rightarrow>
               (case Index remaining (filterType @ '':'' @ filterValue) of
                  None \<Rightarrow> Inr False
                | Some nextIdx \<Rightarrow>
                    hasSpecificFilter_loop query filterType filterValue
                      (idx + length (filterType @ '':'' @ filterValue) + nextIdx))))"
  by pat_completeness auto
termination
proof (relation "measure (\<lambda>(query, filterType, filterValue, idx). length query - idx)")
  show "wf (measure (\<lambda>(query, filterType, filterValue, idx). length query - idx))"
    by simp
next
  fix query filterType filterValue :: string and idx nextIdx :: nat and b remaining
  assume "slice_from query (idx + length (filterType @ '':'' @ filterValue)) = Inr remaining"
    and "Index remaining (filterType @ '':'' @ filterValue) = Some nextIdx"
  then have "nextIdx + length (filterType @ '':'' @ filterValue)
      \<le> length query - (idx + length (filterType @ '':'' @ filterValue))"
    using Index_bound [of remaining "filterType @ '':'' @ filterValue" nextIdx]
    by (auto simp: slice_from_def split: if_splits)
  then show "((query, filterType, filterValue,
        idx + length (filterType @ '':'' @ filterValue) + nextIdx),
       (query, filterType, filterValue, idx))
      \<in> measure (\<lambda>(query, filterType, filterValue, idx). length query - idx)"
    by simp
qed

declare hasSpecificFilter_loop.simps [simp del]

definition hasSpecificFilter :: "string \<Rightarrow> string \<Rightarrow> string \<Rightarrow> error + bool" where
  "hasSpecificFilter query filterType filterValue =
     (case Index query (filterType @ '':'' @ filterValue) of
        None \<Rightarrow> Inr False
      | Some idx \<Rightarrow> hasSpecificFilter_loop query filterType filterValue idx)"

definition hasRepoFilter :: "string \<Rightarrow> error + bool" where
  "hasRepoFilter query = hasFilter query ''repo''"

definition hasTypeFilter :: "string \<Rightarrow> error + bool" where
  "hasTypeFilter query = hasFilter query ''type''"

subsection \<open>The vocabulary of the specification\<close>

text \<open>
  An occurrence of the substring \<open>p\<close> in \<open>q\<close> at index \<open>i\<close>; a valid filter start (index
  0, or a preceding byte that is whitespace or no word character); a value after the
  colon (a next byte that is not whitespace); a valid end (the end of the query, or a
  next byte that is whitespace or no word character).
\<close>

definition occurs_at :: "string \<Rightarrow> string \<Rightarrow> nat \<Rightarrow> bool" where
  "occurs_at q p i = (i + length p \<le> length q \<and> take (length p) (drop i q) = p)"

definition valid_start :: "string \<Rightarrow> nat \<Rightarrow> bool" where
  "valid_start q i =
     (i = 0 \<or> IsSpace (q ! (i - 1)) \<or>
      (\<not> IsLetter (q ! (i - 1)) \<and> \<not> IsDigit (q ! (i - 1)) \<and> q ! (i - 1) \<noteq> CHR ''_''))"

definition value_follows :: "string \<Rightarrow> nat \<Rightarrow> bool" where
  "value_follows q k = (k < length q \<and> \<not> IsSpace (q ! k))"

definition valid_end :: "string \<Rightarrow> nat \<Rightarrow> bool" where
  "valid_end q k =
     (k = length q \<or> (k < length q \<and>
       (IsSpace (q ! k) \<or>
        (\<not> IsLetter (q ! k) \<and> \<not> IsDigit (q ! k) \<and> q ! k \<noteq> CHR ''_''))))"

text \<open>A word character: a letter, a digit or the underscore.\<close>

definition word_char :: "char \<Rightarrow> bool" where
  "word_char c = (IsLetter c \<or> IsDigit c \<or> c = CHR ''_'')"

text \<open>
  A usable filter \<open>key:\<close> at index \<open>i\<close>: an occurrence of the prefix at a valid start with
  a value after the colon. An exact pair \<open>key:value\<close> at index \<open>i\<close>: an occurrence of the
  target at a valid start and with a valid end.
\<close>

definition filter_at :: "string \<Rightarrow> string \<Rightarrow> nat \<Rightarrow> bool" where
  "filter_at q p i = (occurs_at q p i \<and> valid_start q i \<and> value_follows q (i + length p))"

definition pair_at :: "string \<Rightarrow> string \<Rightarrow> nat \<Rightarrow> bool" where
  "pair_at q target i =
     (occurs_at q target i \<and> valid_start q i \<and> valid_end q (i + length target))"

subsection \<open>Facts about occurrences and \<open>strings.Index\<close>\<close>

lemma occurs_at_0: "occurs_at s p 0 = (take (length p) s = p)"
proof
  assume "take (length p) s = p"
  then have "length (take (length p) s) = length p" by simp
  then have "length p \<le> length s" by simp
  with \<open>take (length p) s = p\<close> show "occurs_at s p 0" by (simp add: occurs_at_def)
qed (simp add: occurs_at_def)

lemma occurs_at_Suc: "occurs_at (c # s) p (Suc j) = occurs_at s p j"
  by (simp add: occurs_at_def)

lemma occurs_at_Nil: "occurs_at [] p j = (p = [] \<and> j = 0)"
  by (auto simp: occurs_at_def)

lemma occurs_at_drop: "k \<le> length q \<Longrightarrow> occurs_at (drop k q) p j = occurs_at q p (k + j)"
  by (auto simp: occurs_at_def add.commute)

lemma occurs_at_nth: "occurs_at q p i \<Longrightarrow> j < length p \<Longrightarrow> q ! (i + j) = p ! j"
proof -
  assume a: "occurs_at q p i" and j: "j < length p"
  from a have le: "i + length p \<le> length q" and eq: "take (length p) (drop i q) = p"
    by (simp_all add: occurs_at_def)
  have "take (length p) (drop i q) ! j = q ! (i + j)"
    using j le by simp
  with eq show ?thesis by simp
qed

lemma Index_Some_iff:
  "Index s p = Some n \<longleftrightarrow> occurs_at s p n \<and> (\<forall>j<n. \<not> occurs_at s p j)"
proof (induction s arbitrary: n)
  case Nil
  show ?case by (auto simp: occurs_at_Nil)
next
  case (Cons c s)
  show ?case
  proof (cases "take (length p) (c # s) = p")
    case True
    then have "occurs_at (c # s) p 0" by (simp only: occurs_at_0)
    with True show ?thesis by auto
  next
    case False
    then have no0: "\<not> occurs_at (c # s) p 0" by (simp only: occurs_at_0) simp
    show ?thesis
    proof (cases n)
      case 0
      with False no0 show ?thesis by auto
    next
      case (Suc m)
      have "(\<forall>j<Suc m. \<not> occurs_at (c # s) p j) = (\<forall>j<m. \<not> occurs_at s p j)"
        using no0 by (auto simp: less_Suc_eq_0_disj occurs_at_Suc)
      with Suc False Cons.IH [of m] show ?thesis
        by (auto simp: occurs_at_Suc)
    qed
  qed
qed

lemma Index_None_iff: "Index s p = None \<longleftrightarrow> (\<forall>j. \<not> occurs_at s p j)"
proof (induction s)
  case Nil
  show ?case by (auto simp: occurs_at_Nil)
next
  case (Cons c s)
  show ?case
  proof (cases "take (length p) (c # s) = p")
    case True
    then have "occurs_at (c # s) p 0" by (simp only: occurs_at_0)
    with True show ?thesis by auto
  next
    case False
    then have no0: "\<not> occurs_at (c # s) p 0" by (simp only: occurs_at_0) simp
    have "(\<forall>j. \<not> occurs_at (c # s) p j) = (\<forall>j. \<not> occurs_at s p j)"
    proof
      assume a: "\<forall>j. \<not> occurs_at (c # s) p j"
      show "\<forall>j. \<not> occurs_at s p j"
      proof
        fix j from a have "\<not> occurs_at (c # s) p (Suc j)" by blast
        then show "\<not> occurs_at s p j" by (simp add: occurs_at_Suc)
      qed
    next
      assume a: "\<forall>j. \<not> occurs_at s p j"
      show "\<forall>j. \<not> occurs_at (c # s) p j"
      proof
        fix j show "\<not> occurs_at (c # s) p j"
          using no0 a by (cases j) (auto simp: occurs_at_Suc)
      qed
    qed
    with False Cons.IH show ?thesis by simp
  qed
qed

lemma occurs_at_less: "occurs_at q p i \<Longrightarrow> p \<noteq> [] \<Longrightarrow> i < length q"
  by (cases p) (auto simp: occurs_at_def)

lemma isBoundary_valid_start:
  "0 < i \<Longrightarrow> isBoundary (q ! (i - 1)) = valid_start q i"
  by (simp add: isBoundary_def valid_start_def)

lemma hasFilter_match_eq:
  assumes "occurs_at q p idx" and "p \<noteq> []"
  shows "hasFilter_match q p idx = Inr (valid_start q idx \<and> value_follows q (idx + length p))"
proof (cases "idx = 0")
  case True
  then show ?thesis
    by (simp add: hasFilter_match_def hasValueAfter_def byte_at_def valid_start_def
        value_follows_def)
next
  case False
  with assms have "idx - 1 < length q"
    using occurs_at_less [of q p idx] by simp
  with False show ?thesis
    using isBoundary_valid_start [of idx q]
    by (simp add: hasFilter_match_def hasValueAfter_def byte_at_def value_follows_def)
qed

lemma hasFilter_loop_unfold:
  assumes "occurs_at q (t @ '':'') idx"
  shows "hasFilter_loop q t idx =
     (if valid_start q idx \<and> value_follows q (idx + length (t @ '':'')) then Inr True
      else (case Index (drop (idx + length (t @ '':'')) q) (t @ '':'') of
              None \<Rightarrow> Inr False
            | Some n \<Rightarrow> hasFilter_loop q t (idx + length (t @ '':'') + n)))"
proof -
  from assms have "idx + length (t @ '':'') \<le> length q"
    by (simp add: occurs_at_def)
  then have sl: "slice_from q (idx + length (t @ '':'')) = Inr (drop (idx + length (t @ '':'')) q)"
    by (simp add: slice_from_def)
  have m: "hasFilter_match q (t @ '':'') idx =
      Inr (valid_start q idx \<and> value_follows q (idx + length (t @ '':'')))"
    using assms by (rule hasFilter_match_eq) simp
  show ?thesis
  proof (cases "valid_start q idx \<and> value_follows q (idx + length (t @ '':''))")
    case True
    with m have "hasFilter_match q (t @ '':'') idx = Inr True" by simp
    then have "hasFilter_loop q t idx = Inr True"
      by (subst hasFilter_loop.simps) simp
    then show ?thesis by (simp only: if_P [OF True])
  next
    case False
    with m have "hasFilter_match q (t @ '':'') idx = Inr False" by simp
    with sl have "hasFilter_loop q t idx =
        (case Index (drop (idx + length (t @ '':'')) q) (t @ '':'') of
           None \<Rightarrow> Inr False
         | Some n \<Rightarrow> hasFilter_loop q t (idx + length (t @ '':'') + n))"
      by (subst hasFilter_loop.simps) simp
    then show ?thesis by (simp only: if_not_P [OF False])
  qed
qed

lemma Index_drop_next:
  assumes "occurs_at q p idx" and "p \<noteq> []"
    and "Index (drop (idx + length p) q) p = Some n"
  shows "occurs_at q p (idx + length p + n)"
    and "length q - (idx + length p + n) < length q - idx"
    and "\<forall>j. idx + length p \<le> j \<and> j < idx + length p + n \<longrightarrow> \<not> occurs_at q p j"
proof -
  from assms(1) have le: "idx + length p \<le> length q"
    by (simp add: occurs_at_def)
  from assms(3) have occ: "occurs_at (drop (idx + length p) q) p n"
    and least: "\<forall>j<n. \<not> occurs_at (drop (idx + length p) q) p j"
    by (simp_all add: Index_Some_iff)
  from occ le show next_occ: "occurs_at q p (idx + length p + n)"
    by (simp add: occurs_at_drop)
  from next_occ assms(2) have "idx + length p + n < length q"
    by (rule occurs_at_less)
  moreover from assms(2) have "0 < length p"
    by simp
  ultimately show "length q - (idx + length p + n) < length q - idx"
    by linarith
  show "\<forall>j. idx + length p \<le> j \<and> j < idx + length p + n \<longrightarrow> \<not> occurs_at q p j"
  proof (intro allI impI)
    fix j assume j: "idx + length p \<le> j \<and> j < idx + length p + n"
    then have "j - (idx + length p) < n" by linarith
    with least have "\<not> occurs_at (drop (idx + length p) q) p (j - (idx + length p))"
      by blast
    with le j show "\<not> occurs_at q p j"
      by (simp add: occurs_at_drop)
  qed
qed

lemma Index_drop_none:
  assumes "occurs_at q p idx" and "Index (drop (idx + length p) q) p = None"
    and "idx + length p \<le> j"
  shows "\<not> occurs_at q p j"
proof -
  from assms(1) have le: "idx + length p \<le> length q"
    by (simp add: occurs_at_def)
  from assms(2) have "\<not> occurs_at (drop (idx + length p) q) p (j - (idx + length p))"
    by (simp add: Index_None_iff)
  with le assms(3) show ?thesis
    by (simp add: occurs_at_drop)
qed

lemma hasFilter_loop_hit:
  assumes "occurs_at q (t @ '':'') idx"
    and "valid_start q idx \<and> value_follows q (idx + length (t @ '':''))"
  shows "hasFilter_loop q t idx = Inr True"
  by (simp only: hasFilter_loop_unfold [OF assms(1)] if_P [OF assms(2)])

lemma hasFilter_loop_none:
  assumes "occurs_at q (t @ '':'') idx"
    and "\<not> (valid_start q idx \<and> value_follows q (idx + length (t @ '':'')))"
    and "Index (drop (idx + length (t @ '':'')) q) (t @ '':'') = None"
  shows "hasFilter_loop q t idx = Inr False"
  by (simp only: hasFilter_loop_unfold [OF assms(1)] if_not_P [OF assms(2)] assms(3) option.case)

lemma hasFilter_loop_next:
  assumes "occurs_at q (t @ '':'') idx"
    and "\<not> (valid_start q idx \<and> value_follows q (idx + length (t @ '':'')))"
    and "Index (drop (idx + length (t @ '':'')) q) (t @ '':'') = Some n"
  shows "hasFilter_loop q t idx = hasFilter_loop q t (idx + length (t @ '':'') + n)"
  by (simp only: hasFilter_loop_unfold [OF assms(1)] if_not_P [OF assms(2)] assms(3) option.case)

lemma hasFilter_loop_returns:
  "occurs_at q (t @ '':'') idx \<Longrightarrow> \<exists>b. hasFilter_loop q t idx = Inr b"
proof (induction "length q - idx" arbitrary: idx rule: less_induct)
  case less
  let ?p = "t @ '':''"
  show ?case
  proof (cases "valid_start q idx \<and> value_follows q (idx + length ?p)")
    case True
    with less.prems have "hasFilter_loop q t idx = Inr True"
      by (rule hasFilter_loop_hit)
    then show ?thesis by blast
  next
    case False
    show ?thesis
    proof (cases "Index (drop (idx + length ?p) q) ?p")
      case None
      with less.prems False have "hasFilter_loop q t idx = Inr False"
        by (rule hasFilter_loop_none)
      then show ?thesis by blast
    next
      case (Some n)
      have ne: "?p \<noteq> []" by simp
      have "occurs_at q ?p (idx + length ?p + n)"
        and "length q - (idx + length ?p + n) < length q - idx"
        using Index_drop_next [OF less.prems ne Some] by blast+
      then have "\<exists>b. hasFilter_loop q t (idx + length ?p + n) = Inr b"
        using less.hyps by blast
      then show ?thesis
        by (simp only: hasFilter_loop_next [OF less.prems False Some])
    qed
  qed
qed

lemma hasFilter_loop_sound:
  "occurs_at q (t @ '':'') idx \<Longrightarrow> hasFilter_loop q t idx = Inr True \<Longrightarrow>
   \<exists>i\<ge>idx. filter_at q (t @ '':'') i"
proof (induction "length q - idx" arbitrary: idx rule: less_induct)
  case less
  let ?p = "t @ '':''"
  show ?case
  proof (cases "valid_start q idx \<and> value_follows q (idx + length ?p)")
    case True
    with less.prems(1) have "filter_at q ?p idx"
      by (simp only: filter_at_def)
    then show ?thesis by blast
  next
    case False
    show ?thesis
    proof (cases "Index (drop (idx + length ?p) q) ?p")
      case None
      with less.prems(1) False have "hasFilter_loop q t idx = Inr False"
        by (rule hasFilter_loop_none)
      with less.prems(2) show ?thesis by simp
    next
      case (Some n)
      have ne: "?p \<noteq> []" by simp
      have occ: "occurs_at q ?p (idx + length ?p + n)"
        and dec: "length q - (idx + length ?p + n) < length q - idx"
        using Index_drop_next [OF less.prems(1) ne Some] by blast+
      from less.prems(2) have "hasFilter_loop q t (idx + length ?p + n) = Inr True"
        by (simp only: hasFilter_loop_next [OF less.prems(1) False Some])
      with less.hyps [OF dec occ] obtain i
        where "idx + length ?p + n \<le> i" and "filter_at q ?p i"
        by blast
      then have "idx \<le> i \<and> filter_at q ?p i" by linarith
      then show ?thesis by blast
    qed
  qed
qed

lemma colon_free_no_overlap:
  assumes "CHR '':'' \<notin> set t"
    and "occurs_at q (t @ '':'') i" and "occurs_at q (t @ '':'') j" and "i < j"
  shows "i + length (t @ '':'') \<le> j"
proof (rule ccontr)
  assume "\<not> i + length (t @ '':'') \<le> j"
  then have j: "j \<le> i + length t" by simp
  have "q ! (i + length t) = (t @ '':'') ! length t"
    using assms(2) by (rule occurs_at_nth) simp
  then have colon: "q ! (i + length t) = CHR '':''" by simp
  from j assms(4) have k: "i + length t - j < length t" by linarith
  have "q ! (j + (i + length t - j)) = (t @ '':'') ! (i + length t - j)"
    using assms(3) by (rule occurs_at_nth) (use k in simp)
  with j k have "q ! (i + length t) = t ! (i + length t - j)"
    by (simp add: nth_append)
  with colon k have "CHR '':'' \<in> set t"
    by (metis nth_mem)
  with assms(1) show False by contradiction
qed

lemma hasFilter_loop_complete:
  "CHR '':'' \<notin> set t \<Longrightarrow> occurs_at q (t @ '':'') idx \<Longrightarrow> idx \<le> i \<Longrightarrow>
   filter_at q (t @ '':'') i \<Longrightarrow> hasFilter_loop q t idx = Inr True"
proof (induction "length q - idx" arbitrary: idx rule: less_induct)
  case less
  let ?p = "t @ '':''"
  from less.prems(4) have occ_i: "occurs_at q ?p i"
    and hit_i: "valid_start q i \<and> value_follows q (i + length ?p)"
    by (simp_all only: filter_at_def)
  show ?case
  proof (cases "i = idx")
    case True
    with less.prems(2) hit_i show ?thesis
      by (simp only: hasFilter_loop_hit)
  next
    case ne_i: False
    with less.prems(3) have "idx < i" by simp
    with less.prems(1,2) occ_i have far: "idx + length ?p \<le> i"
      by (rule colon_free_no_overlap [of t q idx i])
    show ?thesis
    proof (cases "valid_start q idx \<and> value_follows q (idx + length ?p)")
      case True
      with less.prems(2) show ?thesis
        by (rule hasFilter_loop_hit)
    next
      case False
      show ?thesis
      proof (cases "Index (drop (idx + length ?p) q) ?p")
        case None
        have "\<not> occurs_at q ?p i"
          using less.prems(2) None far by (rule Index_drop_none)
        with occ_i show ?thesis by contradiction
      next
        case (Some n)
        have ne: "?p \<noteq> []" by simp
        have occ: "occurs_at q ?p (idx + length ?p + n)"
          and dec: "length q - (idx + length ?p + n) < length q - idx"
          and least: "\<forall>j. idx + length ?p \<le> j \<and> j < idx + length ?p + n \<longrightarrow> \<not> occurs_at q ?p j"
          using Index_drop_next [OF less.prems(2) ne Some] by blast+
        from least far occ_i have le: "idx + length ?p + n \<le> i"
          by (meson not_le_imp_less)
        have "hasFilter_loop q t (idx + length ?p + n) = Inr True"
          using dec less.prems(1) occ le less.prems(4) by (rule less.hyps)
        then show ?thesis
          by (simp only: hasFilter_loop_next [OF less.prems(2) False Some])
      qed
    qed
  qed
qed

lemma isBoundary_valid_end:
  "k < length q \<Longrightarrow> isBoundary (q ! k) = valid_end q k"
  by (simp add: isBoundary_def valid_end_def)

lemma hasSpecificFilter_match_eq:
  assumes "occurs_at q p idx" and "p \<noteq> []"
  shows "hasSpecificFilter_match q p idx =
    Inr (valid_start q idx \<and> valid_end q (idx + length p))"
proof -
  from assms(1) have le: "idx + length p \<le> length q"
    by (simp add: occurs_at_def)
  have e: "(if idx + length p = length q then Inr True
            else (case byte_at q (idx + length p) of
                    Inl e \<Rightarrow> Inl e
                  | Inr nextChar \<Rightarrow> Inr (isBoundary nextChar)))
           = (Inr (valid_end q (idx + length p)) :: error + bool)"
  proof (cases "idx + length p = length q")
    case True
    then show ?thesis by (simp add: valid_end_def)
  next
    case False
    with le have "idx + length p < length q" by simp
    with False show ?thesis
      using isBoundary_valid_end [of "idx + length p" q] by (simp add: byte_at_def)
  qed
  have m: "hasSpecificFilter_match q p idx =
      (case (if idx = 0 then Inr True
             else (case byte_at q (idx - 1) of
                     Inl e \<Rightarrow> Inl e
                   | Inr prevChar \<Rightarrow> Inr (isBoundary prevChar))) of
         Inl e \<Rightarrow> Inl e
       | Inr validStart \<Rightarrow>
           if validStart then Inr (valid_end q (idx + length p)) else Inr False)"
    by (simp only: hasSpecificFilter_match_def Let_def e)
  show ?thesis
  proof (cases "idx = 0")
    case True
    then have "valid_start q idx" by (simp add: valid_start_def)
    with True show ?thesis
      unfolding m by simp
  next
    case False
    with assms have "idx - 1 < length q"
      using occurs_at_less [of q p idx] by simp
    with False show ?thesis
      unfolding m using isBoundary_valid_start [of idx q]
      by (simp add: byte_at_def)
  qed
qed

lemma hasSpecificFilter_loop_unfold:
  assumes "occurs_at q (t @ '':'' @ v) idx"
  shows "hasSpecificFilter_loop q t v idx =
     (if valid_start q idx \<and> valid_end q (idx + length (t @ '':'' @ v)) then Inr True
      else (case Index (drop (idx + length (t @ '':'' @ v)) q) (t @ '':'' @ v) of
              None \<Rightarrow> Inr False
            | Some n \<Rightarrow> hasSpecificFilter_loop q t v (idx + length (t @ '':'' @ v) + n)))"
proof -
  from assms have "idx + length (t @ '':'' @ v) \<le> length q"
    by (simp add: occurs_at_def)
  then have sl: "slice_from q (idx + length (t @ '':'' @ v)) =
      Inr (drop (idx + length (t @ '':'' @ v)) q)"
    by (simp add: slice_from_def)
  have m: "hasSpecificFilter_match q (t @ '':'' @ v) idx =
      Inr (valid_start q idx \<and> valid_end q (idx + length (t @ '':'' @ v)))"
    using assms by (rule hasSpecificFilter_match_eq) simp
  show ?thesis
  proof (cases "valid_start q idx \<and> valid_end q (idx + length (t @ '':'' @ v))")
    case True
    with m have "hasSpecificFilter_match q (t @ '':'' @ v) idx = Inr True" by simp
    then have "hasSpecificFilter_loop q t v idx = Inr True"
      by (subst hasSpecificFilter_loop.simps) simp
    then show ?thesis by (simp only: if_P [OF True])
  next
    case False
    with m have "hasSpecificFilter_match q (t @ '':'' @ v) idx = Inr False" by simp
    with sl have "hasSpecificFilter_loop q t v idx =
        (case Index (drop (idx + length (t @ '':'' @ v)) q) (t @ '':'' @ v) of
           None \<Rightarrow> Inr False
         | Some n \<Rightarrow> hasSpecificFilter_loop q t v (idx + length (t @ '':'' @ v) + n))"
      by (subst hasSpecificFilter_loop.simps) simp
    then show ?thesis by (simp only: if_not_P [OF False])
  qed
qed

lemma hasSpecificFilter_loop_hit:
  assumes "occurs_at q (t @ '':'' @ v) idx"
    and "valid_start q idx \<and> valid_end q (idx + length (t @ '':'' @ v))"
  shows "hasSpecificFilter_loop q t v idx = Inr True"
  by (simp only: hasSpecificFilter_loop_unfold [OF assms(1)] if_P [OF assms(2)])

lemma hasSpecificFilter_loop_none:
  assumes "occurs_at q (t @ '':'' @ v) idx"
    and "\<not> (valid_start q idx \<and> valid_end q (idx + length (t @ '':'' @ v)))"
    and "Index (drop (idx + length (t @ '':'' @ v)) q) (t @ '':'' @ v) = None"
  shows "hasSpecificFilter_loop q t v idx = Inr False"
  by (simp only: hasSpecificFilter_loop_unfold [OF assms(1)] if_not_P [OF assms(2)]
      assms(3) option.case)

lemma hasSpecificFilter_loop_next:
  assumes "occurs_at q (t @ '':'' @ v) idx"
    and "\<not> (valid_start q idx \<and> valid_end q (idx + length (t @ '':'' @ v)))"
    and "Index (drop (idx + length (t @ '':'' @ v)) q) (t @ '':'' @ v) = Some n"
  shows "hasSpecificFilter_loop q t v idx =
    hasSpecificFilter_loop q t v (idx + length (t @ '':'' @ v) + n)"
  by (simp only: hasSpecificFilter_loop_unfold [OF assms(1)] if_not_P [OF assms(2)]
      assms(3) option.case)

lemma hasSpecificFilter_loop_returns:
  "occurs_at q (t @ '':'' @ v) idx \<Longrightarrow> \<exists>b. hasSpecificFilter_loop q t v idx = Inr b"
proof (induction "length q - idx" arbitrary: idx rule: less_induct)
  case less
  let ?p = "t @ '':'' @ v"
  show ?case
  proof (cases "valid_start q idx \<and> valid_end q (idx + length ?p)")
    case True
    with less.prems have "hasSpecificFilter_loop q t v idx = Inr True"
      by (rule hasSpecificFilter_loop_hit)
    then show ?thesis by blast
  next
    case False
    show ?thesis
    proof (cases "Index (drop (idx + length ?p) q) ?p")
      case None
      with less.prems False have "hasSpecificFilter_loop q t v idx = Inr False"
        by (rule hasSpecificFilter_loop_none)
      then show ?thesis by blast
    next
      case (Some n)
      have ne: "?p \<noteq> []" by simp
      have "occurs_at q ?p (idx + length ?p + n)"
        and "length q - (idx + length ?p + n) < length q - idx"
        using Index_drop_next [OF less.prems ne Some] by blast+
      then have "\<exists>b. hasSpecificFilter_loop q t v (idx + length ?p + n) = Inr b"
        using less.hyps by blast
      then show ?thesis
        by (simp only: hasSpecificFilter_loop_next [OF less.prems False Some])
    qed
  qed
qed

lemma hasSpecificFilter_loop_sound:
  "occurs_at q (t @ '':'' @ v) idx \<Longrightarrow> hasSpecificFilter_loop q t v idx = Inr True \<Longrightarrow>
   \<exists>i\<ge>idx. pair_at q (t @ '':'' @ v) i"
proof (induction "length q - idx" arbitrary: idx rule: less_induct)
  case less
  let ?p = "t @ '':'' @ v"
  show ?case
  proof (cases "valid_start q idx \<and> valid_end q (idx + length ?p)")
    case True
    with less.prems(1) have "pair_at q ?p idx"
      by (simp only: pair_at_def)
    then show ?thesis by blast
  next
    case False
    show ?thesis
    proof (cases "Index (drop (idx + length ?p) q) ?p")
      case None
      with less.prems(1) False have "hasSpecificFilter_loop q t v idx = Inr False"
        by (rule hasSpecificFilter_loop_none)
      with less.prems(2) show ?thesis by simp
    next
      case (Some n)
      have ne: "?p \<noteq> []" by simp
      have occ: "occurs_at q ?p (idx + length ?p + n)"
        and dec: "length q - (idx + length ?p + n) < length q - idx"
        using Index_drop_next [OF less.prems(1) ne Some] by blast+
      from less.prems(2) have "hasSpecificFilter_loop q t v (idx + length ?p + n) = Inr True"
        by (simp only: hasSpecificFilter_loop_next [OF less.prems(1) False Some])
      with less.hyps [OF dec occ] obtain i
        where "idx + length ?p + n \<le> i" and "pair_at q ?p i"
        by blast
      then have "idx \<le> i \<and> pair_at q ?p i" by linarith
      then show ?thesis by blast
    qed
  qed
qed

text \<open>The entry points: the first occurrence, then the loop.\<close>

lemma hasFilter_returns: "\<exists>b. hasFilter q t = Inr b"
proof (cases "Index q (t @ '':'')")
  case None
  then have "hasFilter q t = Inr False" by (simp add: hasFilter_def)
  then show ?thesis by blast
next
  case (Some idx)
  then have "occurs_at q (t @ '':'') idx" by (simp add: Index_Some_iff)
  then have "\<exists>b. hasFilter_loop q t idx = Inr b" by (rule hasFilter_loop_returns)
  with Some show ?thesis by (simp add: hasFilter_def)
qed

lemma hasSpecificFilter_returns: "\<exists>b. hasSpecificFilter q t v = Inr b"
proof (cases "Index q (t @ '':'' @ v)")
  case None
  then have "hasSpecificFilter q t v = Inr False" by (simp add: hasSpecificFilter_def)
  then show ?thesis by blast
next
  case (Some idx)
  then have "occurs_at q (t @ '':'' @ v) idx" by (simp add: Index_Some_iff)
  then have "\<exists>b. hasSpecificFilter_loop q t v idx = Inr b"
    by (rule hasSpecificFilter_loop_returns)
  with Some show ?thesis by (simp add: hasSpecificFilter_def)
qed

lemma hasFilter_sound:
  assumes "hasFilter q t = Inr True"
  shows "\<exists>i. filter_at q (t @ '':'') i"
proof (cases "Index q (t @ '':'')")
  case None
  with assms show ?thesis by (simp add: hasFilter_def)
next
  case (Some idx)
  then have occ: "occurs_at q (t @ '':'') idx" by (simp add: Index_Some_iff)
  from Some assms have "hasFilter_loop q t idx = Inr True" by (simp add: hasFilter_def)
  with occ have "\<exists>i\<ge>idx. filter_at q (t @ '':'') i" by (rule hasFilter_loop_sound)
  then show ?thesis by blast
qed

lemma hasFilter_complete:
  assumes "CHR '':'' \<notin> set t" and "filter_at q (t @ '':'') i"
  shows "hasFilter q t = Inr True"
proof (cases "Index q (t @ '':'')")
  case None
  then have "\<not> occurs_at q (t @ '':'') i" by (simp add: Index_None_iff)
  with assms(2) show ?thesis by (simp add: filter_at_def)
next
  case (Some idx)
  then have occ: "occurs_at q (t @ '':'') idx"
    and least: "\<forall>j<idx. \<not> occurs_at q (t @ '':'') j"
    by (simp_all add: Index_Some_iff)
  from assms(2) have "occurs_at q (t @ '':'') i" by (simp only: filter_at_def)
  with least have "idx \<le> i" by (meson not_le_imp_less)
  with assms(1) occ have "hasFilter_loop q t idx = Inr True"
    using assms(2) by (rule hasFilter_loop_complete)
  with Some show ?thesis by (simp add: hasFilter_def)
qed

lemma hasSpecificFilter_sound:
  assumes "hasSpecificFilter q t v = Inr True"
  shows "\<exists>i. pair_at q (t @ '':'' @ v) i"
proof (cases "Index q (t @ '':'' @ v)")
  case None
  with assms show ?thesis by (simp add: hasSpecificFilter_def)
next
  case (Some idx)
  then have occ: "occurs_at q (t @ '':'' @ v) idx" by (simp add: Index_Some_iff)
  from Some assms have "hasSpecificFilter_loop q t v idx = Inr True"
    by (simp add: hasSpecificFilter_def)
  with occ have "\<exists>i\<ge>idx. pair_at q (t @ '':'' @ v) i"
    by (rule hasSpecificFilter_loop_sound)
  then show ?thesis by blast
qed

lemma IsSpace_not_word_char: "IsSpace c \<Longrightarrow> \<not> word_char c"
proof -
  assume "IsSpace c"
  then have "rune c \<in> {0x09, 0x0A, 0x0B, 0x0C, 0x0D, 0x20, 0x85, 0xA0}"
    by (simp only: IsSpace_def)
  moreover have "rune (CHR ''_'') = 0x5F"
    by (simp add: rune_def)
  ultimately show ?thesis
    by (auto simp: word_char_def IsLetter_def IsDigit_def)
qed

lemma isBoundary_iff: "isBoundary c = (\<not> word_char c)"
  using IsSpace_not_word_char [of c] by (auto simp: isBoundary_def word_char_def)

lemma valid_start_iff: "valid_start q i = (i = 0 \<or> \<not> word_char (q ! (i - 1)))"
  using isBoundary_iff [of "q ! (i - 1)"] by (auto simp: valid_start_def isBoundary_def)

lemma valid_end_iff:
  "valid_end q k = (k = length q \<or> (k < length q \<and> \<not> word_char (q ! k)))"
  using isBoundary_iff [of "q ! k"] by (auto simp: valid_end_def isBoundary_def)

lemma occurs_at_append:
  assumes "occurs_at q (a @ b) i"
  shows "occurs_at q a i" and "occurs_at q b (i + length a)"
proof -
  from assms have le: "i + length a + length b \<le> length q"
    and eq: "take (length a + length b) (drop i q) = a @ b"
    by (simp_all add: occurs_at_def add.assoc)
  from eq have "take (length a) (take (length a + length b) (drop i q)) = a"
    by simp
  then have "take (length a) (drop i q) = a"
    by (simp add: min_def)
  with le show "occurs_at q a i"
    by (simp add: occurs_at_def)
  from eq have "drop (length a) (take (length a + length b) (drop i q)) = b"
    by simp
  then have "take (length b) (drop (i + length a) q) = b"
    by (simp add: drop_take add.commute)
  with le show "occurs_at q b (i + length a)"
    by (simp add: occurs_at_def)
qed

lemma hasFilter_cases: "hasFilter q t = Inr True \<or> hasFilter q t = Inr False"
  using hasFilter_returns [of q t] by auto

lemma hasSpecificFilter_cases:
  "hasSpecificFilter q t v = Inr True \<or> hasSpecificFilter q t v = Inr False"
  using hasSpecificFilter_returns [of q t v] by auto

lemma hasFilter_exact:
  assumes "CHR '':'' \<notin> set t"
  shows "hasFilter q t = Inr (\<exists>i. filter_at q (t @ '':'') i)"
proof (cases "\<exists>i. filter_at q (t @ '':'') i")
  case True
  then obtain i where "filter_at q (t @ '':'') i" ..
  with assms have "hasFilter q t = Inr True" by (rule hasFilter_complete)
  with True show ?thesis by simp
next
  case False
  then have "hasFilter q t \<noteq> Inr True"
    using hasFilter_sound [of q t] by blast
  then have "hasFilter q t = Inr False"
    using hasFilter_cases [of q t] by blast
  with False show ?thesis by simp
qed

section \<open>The claims\<close>

text \<open>
  Claim C1. For a non-empty \<open>filterType\<close> without a colon, \<open>hasFilter\<close> returns true
  exactly when some occurrence of \<open>filterType + ":"\<close> in the query starts at a valid
  filter start and is followed by a byte that is not whitespace. It returns false when
  the query holds no occurrence at all, so also for the empty query.
\<close>

theorem hasFilter_iff_usable_occurrence:
  assumes "filterType \<noteq> []" and "CHR '':'' \<notin> set filterType"
  shows "hasFilter query filterType =
      Inr (\<exists>i. occurs_at query (filterType @ '':'') i \<and> valid_start query i \<and>
               value_follows query (i + length (filterType @ '':''))) \<and>
    ((\<forall>i. \<not> occurs_at query (filterType @ '':'') i) \<longrightarrow>
       hasFilter query filterType = Inr False) \<and>
    hasFilter [] filterType = Inr False"
proof (intro conjI impI)
  show "hasFilter query filterType =
      Inr (\<exists>i. occurs_at query (filterType @ '':'') i \<and> valid_start query i \<and>
               value_follows query (i + length (filterType @ '':'')))"
    using hasFilter_exact [OF assms(2), of query] by (simp only: filter_at_def)
next
  assume "\<forall>i. \<not> occurs_at query (filterType @ '':'') i"
  then have "Index query (filterType @ '':'') = None"
    by (simp add: Index_None_iff)
  then show "hasFilter query filterType = Inr False"
    by (simp add: hasFilter_def)
next
  show "hasFilter [] filterType = Inr False"
    by (simp add: hasFilter_def)
qed

text \<open>
  The theorem at \<open>filterType = "is"\<close>: the query \<open>repo:a/b is:issue\<close> has a usable
  occurrence and the scanner returns true; \<open>repo:a/b is: issue\<close> has none (a space
  follows the colon) and the scanner returns false; \<open>bug report\<close> has no occurrence of
  \<open>is:\<close> at all.
\<close>

theorem hasFilter_iff_usable_occurrence_witness:
  "''is'' \<noteq> [] \<and> CHR '':'' \<notin> set ''is'' \<and>
   hasFilter ''repo:a/b is:issue'' ''is'' =
     Inr (\<exists>i. occurs_at ''repo:a/b is:issue'' (''is'' @ '':'') i \<and>
              valid_start ''repo:a/b is:issue'' i \<and>
              value_follows ''repo:a/b is:issue'' (i + length (''is'' @ '':''))) \<and>
   hasFilter ''repo:a/b is:issue'' ''is'' = Inr True \<and>
   hasFilter ''repo:a/b is: issue'' ''is'' =
     Inr (\<exists>i. occurs_at ''repo:a/b is: issue'' (''is'' @ '':'') i \<and>
              valid_start ''repo:a/b is: issue'' i \<and>
              value_follows ''repo:a/b is: issue'' (i + length (''is'' @ '':''))) \<and>
   hasFilter ''repo:a/b is: issue'' ''is'' = Inr False \<and>
   (\<forall>i. \<not> occurs_at ''bug report'' (''is'' @ '':'') i) \<and>
   hasFilter ''bug report'' ''is'' = Inr False"
proof -
  have h1: "''is'' \<noteq> []" by simp
  have h2: "CHR '':'' \<notin> set ''is''" by simp
  have e1: "hasFilter ''repo:a/b is:issue'' ''is'' = Inr True" by code_simp
  have e2: "hasFilter ''repo:a/b is: issue'' ''is'' = Inr False" by code_simp
  have "Index ''bug report'' (''is'' @ '':'') = None" by code_simp
  then have none: "\<forall>i. \<not> occurs_at ''bug report'' (''is'' @ '':'') i"
    using Index_None_iff [of "''bug report''" "''is'' @ '':''"] by blast
  with hasFilter_iff_usable_occurrence [OF h1 h2, of "''bug report''"]
  have e3: "hasFilter ''bug report'' ''is'' = Inr False"
    by blast
  from hasFilter_iff_usable_occurrence [OF h1 h2, of "''repo:a/b is:issue''"]
    hasFilter_iff_usable_occurrence [OF h1 h2, of "''repo:a/b is: issue''"] h1 h2 e1 e2 e3 none
  show ?thesis by blast
qed

lemma hasSpecificFilter_true_end:
  assumes "hasSpecificFilter q t v = Inr True"
  shows "\<exists>i. occurs_at q (t @ '':'' @ v) i \<and>
    \<not> (i + length (t @ '':'' @ v) < length q \<and> word_char (q ! (i + length (t @ '':'' @ v))))"
proof -
  from assms obtain i where "pair_at q (t @ '':'' @ v) i"
    using hasSpecificFilter_sound by blast
  then have "occurs_at q (t @ '':'' @ v) i" and "valid_end q (i + length (t @ '':'' @ v))"
    by (simp_all only: pair_at_def)
  then show ?thesis
    unfolding valid_end_iff by auto
qed

text \<open>
  Claim C4. \<open>hasSpecificFilter\<close> rejects a partial value: an occurrence of the target
  that is immediately followed by a letter, a digit or an underscore does not count.
  Every true answer comes from an occurrence that is not followed by a word character,
  so when every occurrence is followed by one the answer is false; the query
  \<open>is:issues\<close> does not hold the pair \<open>is:issue\<close>.
\<close>

theorem hasSpecificFilter_rejects_partial_value:
  "hasSpecificFilter ''is:issues'' ''is'' ''issue'' = Inr False \<and>
   (hasSpecificFilter query filterType filterValue = Inr True \<longrightarrow>
      (\<exists>i. occurs_at query (filterType @ '':'' @ filterValue) i \<and>
         \<not> (i + length (filterType @ '':'' @ filterValue) < length query \<and>
            word_char (query ! (i + length (filterType @ '':'' @ filterValue)))))) \<and>
   ((\<forall>i. occurs_at query (filterType @ '':'' @ filterValue) i \<longrightarrow>
         i + length (filterType @ '':'' @ filterValue) < length query \<and>
         word_char (query ! (i + length (filterType @ '':'' @ filterValue)))) \<longrightarrow>
      hasSpecificFilter query filterType filterValue = Inr False)"
proof (intro conjI impI)
  show "hasSpecificFilter ''is:issues'' ''is'' ''issue'' = Inr False"
    by code_simp
next
  assume "hasSpecificFilter query filterType filterValue = Inr True"
  then show "\<exists>i. occurs_at query (filterType @ '':'' @ filterValue) i \<and>
       \<not> (i + length (filterType @ '':'' @ filterValue) < length query \<and>
          word_char (query ! (i + length (filterType @ '':'' @ filterValue))))"
    by (rule hasSpecificFilter_true_end)
next
  assume all: "\<forall>i. occurs_at query (filterType @ '':'' @ filterValue) i \<longrightarrow>
       i + length (filterType @ '':'' @ filterValue) < length query \<and>
       word_char (query ! (i + length (filterType @ '':'' @ filterValue)))"
  have "hasSpecificFilter query filterType filterValue \<noteq> Inr True"
  proof
    assume "hasSpecificFilter query filterType filterValue = Inr True"
    then obtain i where "occurs_at query (filterType @ '':'' @ filterValue) i"
      and "\<not> (i + length (filterType @ '':'' @ filterValue) < length query \<and>
          word_char (query ! (i + length (filterType @ '':'' @ filterValue))))"
      using hasSpecificFilter_true_end by blast
    with all show False by blast
  qed
  then show "hasSpecificFilter query filterType filterValue = Inr False"
    using hasSpecificFilter_cases [of query filterType filterValue] by blast
qed

text \<open>
  The theorem at the query \<open>is:issue_1\<close>, whose only occurrence of \<open>is:issue\<close> is followed
  by an underscore, and at \<open>is:issue is:open\<close>, where the scanner returns true.
\<close>

theorem hasSpecificFilter_rejects_partial_value_witness:
  "hasSpecificFilter ''is:issue_1'' ''is'' ''issue'' = Inr False \<and>
   hasSpecificFilter ''is:issue is:open'' ''is'' ''issue'' = Inr True \<and>
   (\<exists>i. occurs_at ''is:issue is:open'' (''is'' @ '':'' @ ''issue'') i \<and>
      \<not> (i + length (''is'' @ '':'' @ ''issue'') < length ''is:issue is:open'' \<and>
         word_char (''is:issue is:open'' ! (i + length (''is'' @ '':'' @ ''issue'')))))"
proof -
  have all: "\<forall>i. occurs_at ''is:issue_1'' (''is'' @ '':'' @ ''issue'') i \<longrightarrow>
       i + length (''is'' @ '':'' @ ''issue'') < length ''is:issue_1'' \<and>
       word_char (''is:issue_1'' ! (i + length (''is'' @ '':'' @ ''issue'')))"
  proof (intro allI impI)
    fix i
    assume occ: "occurs_at ''is:issue_1'' (''is'' @ '':'' @ ''issue'') i"
    then have "i \<le> 2" by (simp add: occurs_at_def)
    then have "i = 0 \<or> i = 1 \<or> i = 2" by linarith
    with occ have "i = 0" by (auto simp: occurs_at_def)
    then show "i + length (''is'' @ '':'' @ ''issue'') < length ''is:issue_1'' \<and>
       word_char (''is:issue_1'' ! (i + length (''is'' @ '':'' @ ''issue'')))"
      by (simp add: word_char_def)
  qed
  have t: "hasSpecificFilter ''is:issue is:open'' ''is'' ''issue'' = Inr True"
    by code_simp
  from hasSpecificFilter_rejects_partial_value
    [of "''is:issue_1''" "''is''" "''issue''"] all
  have f: "hasSpecificFilter ''is:issue_1'' ''is'' ''issue'' = Inr False"
    by blast
  from hasSpecificFilter_rejects_partial_value
    [of "''is:issue is:open''" "''is''" "''issue''"] t
  have "\<exists>i. occurs_at ''is:issue is:open'' (''is'' @ '':'' @ ''issue'') i \<and>
      \<not> (i + length (''is'' @ '':'' @ ''issue'') < length ''is:issue is:open'' \<and>
         word_char (''is:issue is:open'' ! (i + length (''is'' @ '':'' @ ''issue''))))"
    by blast
  with f t show ?thesis by blast
qed

lemma hasFilter_false_if_no_filter:
  assumes "\<forall>i. \<not> filter_at q (t @ '':'') i"
  shows "hasFilter q t = Inr False"
proof -
  from assms have "hasFilter q t \<noteq> Inr True"
    using hasFilter_sound [of q t] by blast
  then show ?thesis
    using hasFilter_cases [of q t] by blast
qed

text \<open>
  Claim C5. The start-boundary rule of \<open>hasFilter\<close> rejects an occurrence of the prefix
  that is immediately preceded by a word character and accepts one preceded by
  punctuation: \<open>dis:issue bug\<close> holds no \<open>is:\<close> filter, \<open>(is:issue)\<close> holds one. When every
  occurrence is preceded by a word character the answer is false; an occurrence of a
  colon-free key that is preceded by a byte that is no word character and followed by a
  value makes the answer true.
\<close>

theorem hasFilter_start_boundary:
  "hasFilter ''dis:issue bug'' ''is'' = Inr False \<and>
   hasFilter ''(is:issue)'' ''is'' = Inr True \<and>
   ((\<forall>i. occurs_at query (filterType @ '':'') i \<longrightarrow>
         0 < i \<and> word_char (query ! (i - 1))) \<longrightarrow>
      hasFilter query filterType = Inr False) \<and>
   (CHR '':'' \<notin> set filterType \<and> occurs_at query (filterType @ '':'') i \<and>
      0 < i \<and> \<not> word_char (query ! (i - 1)) \<and>
      value_follows query (i + length (filterType @ '':'')) \<longrightarrow>
      hasFilter query filterType = Inr True)"
proof (intro conjI impI)
  show "hasFilter ''dis:issue bug'' ''is'' = Inr False"
    by code_simp
next
  show "hasFilter ''(is:issue)'' ''is'' = Inr True"
    by code_simp
next
  assume all: "\<forall>i. occurs_at query (filterType @ '':'') i \<longrightarrow>
      0 < i \<and> word_char (query ! (i - 1))"
  have "\<forall>i. \<not> filter_at query (filterType @ '':'') i"
  proof
    fix i
    show "\<not> filter_at query (filterType @ '':'') i"
    proof
      assume "filter_at query (filterType @ '':'') i"
      then have "occurs_at query (filterType @ '':'') i" and "valid_start query i"
        by (simp_all only: filter_at_def)
      with all show False
        unfolding valid_start_iff by auto
    qed
  qed
  then show "hasFilter query filterType = Inr False"
    by (rule hasFilter_false_if_no_filter)
next
  assume a: "CHR '':'' \<notin> set filterType \<and> occurs_at query (filterType @ '':'') i \<and>
      0 < i \<and> \<not> word_char (query ! (i - 1)) \<and>
      value_follows query (i + length (filterType @ '':''))"
  then have "valid_start query i"
    unfolding valid_start_iff by blast
  with a have "filter_at query (filterType @ '':'') i"
    by (simp only: filter_at_def)
  with a show "hasFilter query filterType = Inr True"
    using hasFilter_complete [of filterType query i] by blast
qed

text \<open>
  The theorem at the query \<open>label_is:x\<close>, whose only occurrence of \<open>is:\<close> follows an
  underscore, and at \<open>a,is:x\<close>, where the occurrence at index 2 follows a comma.
\<close>

theorem hasFilter_start_boundary_witness:
  "hasFilter ''label_is:x'' ''is'' = Inr False \<and>
   CHR '':'' \<notin> set ''is'' \<and> occurs_at ''a,is:x'' (''is'' @ '':'') 2 \<and>
   (0::nat) < 2 \<and> \<not> word_char (''a,is:x'' ! (2 - 1)) \<and>
   value_follows ''a,is:x'' (2 + length (''is'' @ '':'')) \<and>
   hasFilter ''a,is:x'' ''is'' = Inr True"
proof -
  have all: "\<forall>i. occurs_at ''label_is:x'' (''is'' @ '':'') i \<longrightarrow>
      0 < i \<and> word_char (''label_is:x'' ! (i - 1))"
  proof (intro allI impI)
    fix i
    assume occ: "occurs_at ''label_is:x'' (''is'' @ '':'') i"
    then have "i \<le> 7" by (simp add: occurs_at_def)
    then have "i = 0 \<or> i = 1 \<or> i = 2 \<or> i = 3 \<or> i = 4 \<or> i = 5 \<or> i = 6 \<or> i = 7"
      by linarith
    with occ have "i = 6" by (auto simp: occurs_at_def)
    then show "0 < i \<and> word_char (''label_is:x'' ! (i - 1))"
      by (simp add: word_char_def)
  qed
  have h: "CHR '':'' \<notin> set ''is'' \<and> occurs_at ''a,is:x'' (''is'' @ '':'') 2 \<and>
      (0::nat) < 2 \<and> \<not> word_char (''a,is:x'' ! (2 - 1)) \<and>
      value_follows ''a,is:x'' (2 + length (''is'' @ '':''))"
    by (simp add: occurs_at_def word_char_def value_follows_def IsLetter_def IsDigit_def
        IsSpace_def rune_def)
  from hasFilter_start_boundary [of "''label_is:x''" "''is''"] all
  have f: "hasFilter ''label_is:x'' ''is'' = Inr False"
    by blast
  from hasFilter_start_boundary [of "''a,is:x''" "''is''" 2] h
  have "hasFilter ''a,is:x'' ''is'' = Inr True"
    by blast
  with f h show ?thesis by blast
qed

text \<open>
  Claim C6. An occurrence of \<open>filterType + ":"\<close> with no value attached never makes
  \<open>hasFilter\<close> return true: when after every occurrence the query ends or a whitespace
  byte follows, the answer is false, as for \<open>label:is: \<close>. For a query that ends in
  \<open>filterType + ":"\<close> a true answer comes from an occurrence before the final one, and the
  query that is the prefix alone holds no filter.
\<close>

theorem hasFilter_needs_value:
  "hasFilter ''label:is: '' ''is'' = Inr False \<and>
   ((\<forall>i. occurs_at query (filterType @ '':'') i \<longrightarrow>
         i + length (filterType @ '':'') = length query \<or>
         IsSpace (query ! (i + length (filterType @ '':'')))) \<longrightarrow>
      hasFilter query filterType = Inr False) \<and>
   (hasFilter (pre @ filterType @ '':'') filterType = Inr True \<longrightarrow>
      (\<exists>i<length pre. occurs_at (pre @ filterType @ '':'') (filterType @ '':'') i \<and>
         valid_start (pre @ filterType @ '':'') i \<and>
         value_follows (pre @ filterType @ '':'') (i + length (filterType @ '':'')))) \<and>
   hasFilter (filterType @ '':'') filterType = Inr False"
proof (intro conjI impI)
  show "hasFilter ''label:is: '' ''is'' = Inr False"
    by code_simp
next
  assume all: "\<forall>i. occurs_at query (filterType @ '':'') i \<longrightarrow>
      i + length (filterType @ '':'') = length query \<or>
      IsSpace (query ! (i + length (filterType @ '':'')))"
  have "\<forall>i. \<not> filter_at query (filterType @ '':'') i"
  proof
    fix i
    show "\<not> filter_at query (filterType @ '':'') i"
    proof
      assume "filter_at query (filterType @ '':'') i"
      then have "occurs_at query (filterType @ '':'') i"
        and "value_follows query (i + length (filterType @ '':''))"
        by (simp_all only: filter_at_def)
      with all show False
        unfolding value_follows_def by auto
    qed
  qed
  then show "hasFilter query filterType = Inr False"
    by (rule hasFilter_false_if_no_filter)
next
  let ?q = "pre @ filterType @ '':''"
  assume "hasFilter ?q filterType = Inr True"
  then obtain i where f: "filter_at ?q (filterType @ '':'') i"
    using hasFilter_sound by blast
  then have "i + length (filterType @ '':'') < length ?q"
    by (simp only: filter_at_def value_follows_def)
  then have "i < length pre" by simp
  with f show "\<exists>i<length pre. occurs_at ?q (filterType @ '':'') i \<and> valid_start ?q i \<and>
      value_follows ?q (i + length (filterType @ '':''))"
    unfolding filter_at_def by blast
next
  have "\<forall>i. \<not> filter_at (filterType @ '':'') (filterType @ '':'') i"
    by (simp add: filter_at_def value_follows_def)
  then show "hasFilter (filterType @ '':'') filterType = Inr False"
    by (rule hasFilter_false_if_no_filter)
qed

text \<open>
  The theorem at the query \<open>is: bug\<close>, whose only occurrence of \<open>is:\<close> is followed by a
  space, and at \<open>is:open is:\<close>, which ends in the prefix and is accepted for the
  occurrence at index 0.
\<close>

theorem hasFilter_needs_value_witness:
  "hasFilter ''is: bug'' ''is'' = Inr False \<and>
   hasFilter (''is:open '' @ ''is'' @ '':'') ''is'' = Inr True \<and>
   (\<exists>i<length ''is:open ''.
      occurs_at (''is:open '' @ ''is'' @ '':'') (''is'' @ '':'') i \<and>
      valid_start (''is:open '' @ ''is'' @ '':'') i \<and>
      value_follows (''is:open '' @ ''is'' @ '':'') (i + length (''is'' @ '':'')))"
proof -
  have all: "\<forall>i. occurs_at ''is: bug'' (''is'' @ '':'') i \<longrightarrow>
      i + length (''is'' @ '':'') = length ''is: bug'' \<or>
      IsSpace (''is: bug'' ! (i + length (''is'' @ '':'')))"
  proof (intro allI impI)
    fix i
    assume occ: "occurs_at ''is: bug'' (''is'' @ '':'') i"
    then have "i \<le> 4" by (simp add: occurs_at_def)
    then have "i = 0 \<or> i = 1 \<or> i = 2 \<or> i = 3 \<or> i = 4"
      by linarith
    with occ have "i = 0" by (auto simp: occurs_at_def)
    then show "i + length (''is'' @ '':'') = length ''is: bug'' \<or>
      IsSpace (''is: bug'' ! (i + length (''is'' @ '':'')))"
      by (simp add: IsSpace_def rune_def)
  qed
  have t: "hasFilter (''is:open '' @ ''is'' @ '':'') ''is'' = Inr True"
    by code_simp
  from hasFilter_needs_value [of "''is: bug''" "''is''"] all
  have f: "hasFilter ''is: bug'' ''is'' = Inr False"
    by blast
  from hasFilter_needs_value [where pre = "''is:open ''" and filterType = "''is''"] t
  have "\<exists>i<length ''is:open ''.
      occurs_at (''is:open '' @ ''is'' @ '':'') (''is'' @ '':'') i \<and>
      valid_start (''is:open '' @ ''is'' @ '':'') i \<and>
      value_follows (''is:open '' @ ''is'' @ '':'') (i + length (''is'' @ '':''))"
    by blast
  with f t show ?thesis by blast
qed

text \<open>
  Claim C7. Both scanners are total: for all input strings, the empty ones included,
  each call returns a boolean and never panics. Each round of either loop that finds a
  next occurrence moves \<open>idx\<close> strictly forward and keeps it inside the query, so the
  loops cannot run forever.
\<close>

theorem scanners_total:
  "(\<exists>b. hasFilter query filterType = Inr b) \<and>
   (\<exists>b. hasSpecificFilter query filterType filterValue = Inr b) \<and>
   (Index (drop (idx + length (filterType @ '':'')) query) (filterType @ '':'') = Some nextIdx
      \<longrightarrow> idx < idx + length (filterType @ '':'') + nextIdx \<and>
          idx + length (filterType @ '':'') + nextIdx < length query) \<and>
   (Index (drop (idx + length (filterType @ '':'' @ filterValue)) query)
        (filterType @ '':'' @ filterValue) = Some nextIdx
      \<longrightarrow> idx < idx + length (filterType @ '':'' @ filterValue) + nextIdx \<and>
          idx + length (filterType @ '':'' @ filterValue) + nextIdx < length query)"
proof -
  have progress: "idx < idx + length p + n \<and> idx + length p + n < length query"
    if "Index (drop (idx + length p) query) p = Some n" and "p \<noteq> []" for p n
  proof -
    from that(1) have "n + length p \<le> length (drop (idx + length p) query)"
      by (rule Index_bound)
    then have "n + length p \<le> length query - (idx + length p)"
      by simp
    moreover from that(2) have "0 < length p" by simp
    ultimately show ?thesis by linarith
  qed
  have "filterType @ '':'' \<noteq> []" and "filterType @ '':'' @ filterValue \<noteq> []"
    by simp_all
  with progress hasFilter_returns [of query filterType]
    hasSpecificFilter_returns [of query filterType filterValue]
  show ?thesis by blast
qed

text \<open>
  The theorem at the query \<open>xis:issue is:issue\<close>: from the rejected occurrence at index 1
  the loop of \<open>hasFilter\<close> moves to index 10 and so does the loop of
  \<open>hasSpecificFilter\<close>, and both scanners return.
\<close>

theorem scanners_total_witness:
  "Index (drop (1 + length (''is'' @ '':'')) ''xis:issue is:issue'') (''is'' @ '':'') = Some 6 \<and>
   (1::nat) < 1 + length (''is'' @ '':'') + 6 \<and>
   1 + length (''is'' @ '':'') + 6 < length ''xis:issue is:issue'' \<and>
   Index (drop (1 + length (''is'' @ '':'' @ ''issue'')) ''xis:issue is:issue'')
     (''is'' @ '':'' @ ''issue'') = Some 1 \<and>
   (1::nat) < 1 + length (''is'' @ '':'' @ ''issue'') + 1 \<and>
   1 + length (''is'' @ '':'' @ ''issue'') + 1 < length ''xis:issue is:issue'' \<and>
   (\<exists>b. hasFilter ''xis:issue is:issue'' ''is'' = Inr b) \<and>
   (\<exists>b. hasSpecificFilter ''xis:issue is:issue'' ''is'' ''issue'' = Inr b)"
proof -
  have h: "Index (drop (1 + length (''is'' @ '':'')) ''xis:issue is:issue'') (''is'' @ '':'')
      = Some 6"
    by code_simp
  have h': "Index (drop (1 + length (''is'' @ '':'' @ ''issue'')) ''xis:issue is:issue'')
      (''is'' @ '':'' @ ''issue'') = Some 1"
    by code_simp
  from scanners_total [of "''xis:issue is:issue''" "''is''" "''issue''" 1 6]
    scanners_total [of "''xis:issue is:issue''" "''is''" "''issue''" 1 1] h h'
  show ?thesis by blast
qed

text \<open>
  Claim C9. The boundary tests read single bytes, not decoded characters. The letter
  \<open>U+00E9\<close> is the two bytes \<open>C3 A9\<close> in UTF-8; its last byte, read as the code point
  \<open>U+00A9\<close>, is no letter, so an occurrence right after it is accepted, while one after
  the ASCII letter \<open>e\<close> is rejected. The space \<open>U+2003\<close> is the bytes \<open>E2 80 83\<close>; its
  first byte is not whitespace, so it counts as a value after the colon.
\<close>

theorem boundary_tests_read_bytes:
  "hasFilter ([CHR 0xC3, CHR 0xA9] @ ''is:issue'') ''is'' = Inr True \<and>
   \<not> IsLetter (CHR 0xA9) \<and> \<not> IsDigit (CHR 0xA9) \<and> CHR 0xA9 \<noteq> CHR ''_'' \<and>
   hasFilter (''e'' @ ''is:issue'') ''is'' = Inr False \<and>
   hasFilter (''is:'' @ [CHR 0xE2, CHR 0x80, CHR 0x83]) ''is'' = Inr True \<and>
   \<not> IsSpace (CHR 0xE2) \<and>
   hasFilter (''is:'' @ '' '') ''is'' = Inr False"
proof (intro conjI)
  show "hasFilter ([CHR 0xC3, CHR 0xA9] @ ''is:issue'') ''is'' = Inr True"
    by code_simp
  show "hasFilter (''e'' @ ''is:issue'') ''is'' = Inr False"
    by code_simp
  show "hasFilter (''is:'' @ [CHR 0xE2, CHR 0x80, CHR 0x83]) ''is'' = Inr True"
    by code_simp
  show "hasFilter (''is:'' @ '' '') ''is'' = Inr False"
    by code_simp
qed (simp_all add: IsLetter_def IsDigit_def IsSpace_def rune_def)

text \<open>
  Claim C10. For a non-empty colon-free \<open>filterType\<close> and a non-empty \<open>filterValue\<close>
  whose first byte is not whitespace, a query in which \<open>hasSpecificFilter\<close> finds the pair
  \<open>filterType:filterValue\<close> is one in which \<open>hasFilter\<close> finds the key \<open>filterType\<close>.
\<close>

theorem hasSpecificFilter_implies_hasFilter:
  assumes "filterType \<noteq> []" and "CHR '':'' \<notin> set filterType"
    and "filterValue \<noteq> []" and "\<not> IsSpace (hd filterValue)"
    and "hasSpecificFilter query filterType filterValue = Inr True"
  shows "hasFilter query filterType = Inr True"
proof -
  let ?p = "filterType @ '':''"
  from assms(5) obtain i where "pair_at query (filterType @ '':'' @ filterValue) i"
    using hasSpecificFilter_sound by blast
  then have occ: "occurs_at query (?p @ filterValue) i" and start: "valid_start query i"
    by (simp_all add: pair_at_def)
  from occ have occ_p: "occurs_at query ?p i"
    and occ_v: "occurs_at query filterValue (i + length ?p)"
    by (rule occurs_at_append)+
  from assms(3) have "0 < length filterValue" by simp
  with occ_v have "query ! (i + length ?p + 0) = filterValue ! 0"
    by (rule occurs_at_nth)
  with assms(3,4) have "\<not> IsSpace (query ! (i + length ?p))"
    by (simp add: hd_conv_nth)
  moreover from occ_v assms(3) have "i + length ?p < length query"
    by (rule occurs_at_less)
  ultimately have "value_follows query (i + length ?p)"
    unfolding value_follows_def by blast
  with occ_p start have "filter_at query ?p i"
    by (simp only: filter_at_def)
  with assms(2) show ?thesis
    by (rule hasFilter_complete)
qed

text \<open>The theorem at the query \<open>repo:a/b is:issue\<close> and the pair \<open>is:issue\<close>.\<close>

theorem hasSpecificFilter_implies_hasFilter_witness:
  "''is'' \<noteq> [] \<and> CHR '':'' \<notin> set ''is'' \<and> ''issue'' \<noteq> [] \<and> \<not> IsSpace (hd ''issue'') \<and>
   hasSpecificFilter ''repo:a/b is:issue'' ''is'' ''issue'' = Inr True \<and>
   hasFilter ''repo:a/b is:issue'' ''is'' = Inr True"
proof -
  have h1: "''is'' \<noteq> []" and h2: "CHR '':'' \<notin> set ''is''" and h3: "''issue'' \<noteq> []"
    by simp_all
  have h4: "\<not> IsSpace (hd ''issue'')"
    by (simp add: IsSpace_def rune_def)
  have h5: "hasSpecificFilter ''repo:a/b is:issue'' ''is'' ''issue'' = Inr True"
    by code_simp
  from hasSpecificFilter_implies_hasFilter [OF h1 h2 h3 h4 h5] h1 h2 h3 h4 h5
  show ?thesis by blast
qed

text \<open>
  Claim C2, as far as the code goes. \<open>hasSpecificFilter\<close> resumes its search behind the
  whole target, so an occurrence that overlaps a rejected one is never tried. In
  \<open>xis:is:is\<close> the pair \<open>is:is\<close> occurs at index 1 (after the letter \<open>x\<close>, rejected) and at
  index 4 (after a colon and at the end of the query, valid on both sides); the loop
  goes from index 1 to the remainder \<open>:is\<close>, finds nothing there and returns false.
\<close>

theorem hasSpecificFilter_skips_overlapping_occurrence:
  "hasSpecificFilter ''xis:is:is'' ''is'' ''is'' = Inr False \<and>
   occurs_at ''xis:is:is'' (''is'' @ '':'' @ ''is'') 1 \<and>
   \<not> valid_start ''xis:is:is'' 1 \<and>
   occurs_at ''xis:is:is'' (''is'' @ '':'' @ ''is'') 4 \<and>
   valid_start ''xis:is:is'' 4 \<and>
   valid_end ''xis:is:is'' (4 + length (''is'' @ '':'' @ ''is'')) \<and>
   Index (drop (1 + length (''is'' @ '':'' @ ''is'')) ''xis:is:is'') (''is'' @ '':'' @ ''is'')
     = None"
proof (intro conjI)
  show "hasSpecificFilter ''xis:is:is'' ''is'' ''is'' = Inr False"
    by code_simp
  show "Index (drop (1 + length (''is'' @ '':'' @ ''is'')) ''xis:is:is'')
      (''is'' @ '':'' @ ''is'') = None"
    by code_simp
qed (simp_all add: occurs_at_def valid_start_def valid_end_def IsSpace_def IsLetter_def
    IsDigit_def rune_def)

text \<open>
  Claim C3, as far as the code goes. The concrete call of the claim returns true: in
  \<open>xis:issue is:issue\<close> the first occurrence is rejected and the second accepted, by
  either scanner. The general statement fails for \<open>hasSpecificFilter\<close> where the valid
  occurrence overlaps a rejected one: in \<open>ax:x:x\<close> the pair \<open>x:x\<close> at index 3 is valid on
  both sides, the one at index 1 is not, and the call returns false.
\<close>

theorem later_occurrence_found_unless_overlapping:
  "hasFilter ''xis:issue is:issue'' ''is'' = Inr True \<and>
   hasSpecificFilter ''xis:issue is:issue'' ''is'' ''issue'' = Inr True \<and>
   hasSpecificFilter ''ax:x:x'' ''x'' ''x'' = Inr False \<and>
   occurs_at ''ax:x:x'' (''x'' @ '':'' @ ''x'') 1 \<and>
   \<not> valid_start ''ax:x:x'' 1 \<and>
   occurs_at ''ax:x:x'' (''x'' @ '':'' @ ''x'') 3 \<and>
   valid_start ''ax:x:x'' 3 \<and>
   valid_end ''ax:x:x'' (3 + length (''x'' @ '':'' @ ''x''))"
proof (intro conjI)
  show "hasFilter ''xis:issue is:issue'' ''is'' = Inr True"
    by code_simp
  show "hasSpecificFilter ''xis:issue is:issue'' ''is'' ''issue'' = Inr True"
    by code_simp
  show "hasSpecificFilter ''ax:x:x'' ''x'' ''x'' = Inr False"
    by code_simp
qed (simp_all add: occurs_at_def valid_start_def valid_end_def IsSpace_def IsLetter_def
    IsDigit_def rune_def)

section \<open>Further properties\<close>

lemma hasSpecificFilter_loop_complete:
  assumes apart: "\<forall>i j. occurs_at q (t @ '':'' @ v) i \<and> occurs_at q (t @ '':'' @ v) j \<and> i < j
      \<longrightarrow> i + length (t @ '':'' @ v) \<le> j"
  shows "occurs_at q (t @ '':'' @ v) idx \<Longrightarrow> idx \<le> i \<Longrightarrow>
    pair_at q (t @ '':'' @ v) i \<Longrightarrow> hasSpecificFilter_loop q t v idx = Inr True"
proof (induction "length q - idx" arbitrary: idx rule: less_induct)
  case less
  let ?p = "t @ '':'' @ v"
  from less.prems(3) have occ_i: "occurs_at q ?p i"
    and hit_i: "valid_start q i \<and> valid_end q (i + length ?p)"
    by (simp_all only: pair_at_def)
  show ?case
  proof (cases "valid_start q idx \<and> valid_end q (idx + length ?p)")
    case True
    with less.prems(1) show ?thesis
      by (rule hasSpecificFilter_loop_hit)
  next
    case False
    with hit_i have "i \<noteq> idx" by blast
    with less.prems(2) have "idx < i" by simp
    with apart less.prems(1) occ_i have far: "idx + length ?p \<le> i"
      by blast
    show ?thesis
    proof (cases "Index (drop (idx + length ?p) q) ?p")
      case None
      have "\<not> occurs_at q ?p i"
        using less.prems(1) None far by (rule Index_drop_none)
      with occ_i show ?thesis by contradiction
    next
      case (Some n)
      have ne: "?p \<noteq> []" by simp
      have occ: "occurs_at q ?p (idx + length ?p + n)"
        and dec: "length q - (idx + length ?p + n) < length q - idx"
        and least: "\<forall>j. idx + length ?p \<le> j \<and> j < idx + length ?p + n \<longrightarrow> \<not> occurs_at q ?p j"
        using Index_drop_next [OF less.prems(1) ne Some] by blast+
      from least far occ_i have le: "idx + length ?p + n \<le> i"
        by (meson not_le_imp_less)
      have "hasSpecificFilter_loop q t v (idx + length ?p + n) = Inr True"
        using dec occ le less.prems(3) by (rule less.hyps)
      then show ?thesis
        by (simp only: hasSpecificFilter_loop_next [OF less.prems(1) False Some])
    qed
  qed
qed

text \<open>
  Beyond the claims: where no two occurrences of the target in the query overlap,
  \<open>hasSpecificFilter\<close> returns true exactly when some occurrence of the target has a valid
  start and a valid end.
\<close>

theorem hasSpecificFilter_exact_without_overlap:
  assumes "\<forall>i j. occurs_at query (filterType @ '':'' @ filterValue) i \<and>
      occurs_at query (filterType @ '':'' @ filterValue) j \<and> i < j
      \<longrightarrow> i + length (filterType @ '':'' @ filterValue) \<le> j"
  shows "hasSpecificFilter query filterType filterValue =
    Inr (\<exists>i. occurs_at query (filterType @ '':'' @ filterValue) i \<and> valid_start query i \<and>
             valid_end query (i + length (filterType @ '':'' @ filterValue)))"
proof (cases "\<exists>i. pair_at query (filterType @ '':'' @ filterValue) i")
  case True
  then obtain i where p: "pair_at query (filterType @ '':'' @ filterValue) i" ..
  then have occ_i: "occurs_at query (filterType @ '':'' @ filterValue) i"
    by (simp only: pair_at_def)
  have "hasSpecificFilter query filterType filterValue = Inr True"
  proof (cases "Index query (filterType @ '':'' @ filterValue)")
    case None
    then have "\<not> occurs_at query (filterType @ '':'' @ filterValue) i"
      by (simp add: Index_None_iff)
    with occ_i show ?thesis by contradiction
  next
    case (Some idx)
    then have occ: "occurs_at query (filterType @ '':'' @ filterValue) idx"
      and least: "\<forall>j<idx. \<not> occurs_at query (filterType @ '':'' @ filterValue) j"
      by (simp_all add: Index_Some_iff)
    from least occ_i have "idx \<le> i" by (meson not_le_imp_less)
    with assms occ have "hasSpecificFilter_loop query filterType filterValue idx = Inr True"
      using p by (rule hasSpecificFilter_loop_complete)
    with Some show ?thesis by (simp add: hasSpecificFilter_def)
  qed
  with True show ?thesis unfolding pair_at_def by simp
next
  case False
  then have "hasSpecificFilter query filterType filterValue \<noteq> Inr True"
    using hasSpecificFilter_sound [of query filterType filterValue] by blast
  then have "hasSpecificFilter query filterType filterValue = Inr False"
    using hasSpecificFilter_cases [of query filterType filterValue] by blast
  with False show ?thesis unfolding pair_at_def by simp
qed

text \<open>
  The theorem at the query \<open>(is:pr)\<close> and the pair \<open>is:pr\<close>, which occurs at index 1
  only.
\<close>

theorem hasSpecificFilter_exact_without_overlap_witness:
  "hasSpecificFilter ''(is:pr)'' ''is'' ''pr'' =
     Inr (\<exists>i. occurs_at ''(is:pr)'' (''is'' @ '':'' @ ''pr'') i \<and> valid_start ''(is:pr)'' i \<and>
              valid_end ''(is:pr)'' (i + length (''is'' @ '':'' @ ''pr''))) \<and>
   hasSpecificFilter ''(is:pr)'' ''is'' ''pr'' = Inr True"
proof -
  have one: "i = 1" if "occurs_at ''(is:pr)'' (''is'' @ '':'' @ ''pr'') i" for i
  proof -
    from that have "i \<le> 2" by (simp add: occurs_at_def)
    then have "i = 0 \<or> i = 1 \<or> i = 2" by linarith
    with that show ?thesis by (auto simp: occurs_at_def)
  qed
  have apart: "\<forall>i j. occurs_at ''(is:pr)'' (''is'' @ '':'' @ ''pr'') i \<and>
      occurs_at ''(is:pr)'' (''is'' @ '':'' @ ''pr'') j \<and> i < j
      \<longrightarrow> i + length (''is'' @ '':'' @ ''pr'') \<le> j"
    using one by fastforce
  have t: "hasSpecificFilter ''(is:pr)'' ''is'' ''pr'' = Inr True"
    by code_simp
  from hasSpecificFilter_exact_without_overlap [OF apart] t
  show ?thesis by blast
qed

end
